theory Spec2Isabelle
  imports Main "HOL-Library.Word"
begin

section \<open>Errors and the effects of the stream manager\<close>

text \<open>
  Go's \<^verbatim>\<open>error\<close> values. The first three are the package's own sentinels
  (\<^verbatim>\<open>utils.go\<close>, lines 10--14); \<open>ErrUnknownTopicOrPartition\<close> is the transport's sentinel that
  \<^verbatim>\<open>Consume\<close> compares against; \<open>SyntaxError\<close> and \<open>InvalidUnmarshalError\<close> are the two
  errors of the JSON decoder that the in-memory coordination client can hand on;
  \<open>OtherError n\<close> stands for any further error value. A nil error is \<open>None\<close>.
\<close>

datatype error =
    ErrDecodingMessageFailed
  | ErrNotFound
  | ErrStreamClosing
  | ErrUnknownTopicOrPartition
  | SyntaxError
  | InvalidUnmarshalError
  | OtherError nat

text \<open>
  A \<^verbatim>\<open>*StreamConsumer\<close> is an address; a partition-read handle of the transport is an
  opaque number.
\<close>

type_synonym sid = nat
type_synonym handle = nat

text \<open>
  What the manager does to its collaborators is recorded, in order, in a log of events:
  a call of the transport's \<^verbatim>\<open>ConsumePartition\<close> with its three arguments, a wait of
  so many seconds (\<^verbatim>\<open>time.After\<close>), the creation of a session around a handle, the
  session's \<^verbatim>\<open>Start\<close> and \<^verbatim>\<open>Close\<close>, and the \<^verbatim>\<open>Close\<close> of the transport consumer.
  The write \<^verbatim>\<open>ks.closing = true\<close>, which other callers of the manager see, is an event
  of the log as well. The calls of \<^verbatim>\<open>log.Printf\<close> are left out.
\<close>

datatype event =
    EvConsumePartition string "32 word" "64 word"
  | EvWait nat
  | EvNewStreamConsumer sid handle
  | EvStart sid
  | EvSessionClose sid
  | EvSetClosing
  | EvTransportClose

text \<open>
  \<^verbatim>\<open>kafkaStreamImpl\<close>: the map of sessions and the closing flag, together with the log of
  effects and the next free session address. The calls are modelled one at a time, each
  running to its end before the next starts, so the mutex is not represented.
\<close>

record kafkaStreamImpl =
  consumers :: "sid \<rightharpoonup> bool"
  closing :: bool
  trace :: "event list"
  fresh :: sid

text \<open>\<^verbatim>\<open>sarama.OffsetOldest\<close>, the transport's sentinel for the oldest available record.\<close>

definition OffsetOldest :: "64 word" where
  "OffsetOldest = - 2"

section \<open>Consume\<close>

text \<open>
  The loop of \<^verbatim>\<open>Consume\<close> (lines 140--155). The transport is a script: \<open>tr i\<close> is the pair
  \<^verbatim>\<open>(partitionConsumer, err)\<close> that the call number \<open>i\<close> of \<^verbatim>\<open>ConsumePartition\<close> returns.
  The loop may run forever; then the value is \<open>None\<close>. Otherwise it yields the handle, or
  the error the function returns with, and the log.
\<close>

partial_function (option) open_loop ::
  "(nat \<Rightarrow> handle option \<times> error option) \<Rightarrow> string \<Rightarrow> 32 word \<Rightarrow> 64 word \<Rightarrow>
   nat \<Rightarrow> handle option \<Rightarrow> event list \<Rightarrow> ((error + handle) \<times> event list) option" where
  "open_loop tr topic part offs i pc evs =
     (case pc of
        Some h \<Rightarrow> Some (Inr h, evs)
      | None \<Rightarrow>
          (case tr i of (pc', err) \<Rightarrow>
             if err = Some ErrUnknownTopicOrPartition
             then open_loop tr topic part offs (Suc i) pc'
                    (evs @ [EvConsumePartition topic part offs, EvWait 5])
             else (case err of
                     Some e \<Rightarrow> Some (Inl e, evs @ [EvConsumePartition topic part offs])
                   | None \<Rightarrow> open_loop tr topic part offs (Suc i) pc'
                               (evs @ [EvConsumePartition topic part offs]))))"

text \<open>
  Modelled from the spec: \<^verbatim>\<open>NewStreamConsumer\<close> and the session's \<^verbatim>\<open>Start\<close> and \<^verbatim>\<open>Close\<close>
  are not among the sources. The spec has \<^verbatim>\<open>Consume\<close> wrap the handle in a new session and
  start its forwarding loop: the new session gets the next free address, and the three
  operations are events of the log.
\<close>

definition NewStreamConsumer :: "handle \<Rightarrow> kafkaStreamImpl \<Rightarrow> sid \<times> kafkaStreamImpl" where
  "NewStreamConsumer h ks =
     (fresh ks, ks\<lparr>trace := trace ks @ [EvNewStreamConsumer (fresh ks) h], fresh := Suc (fresh ks)\<rparr>)"

definition Start :: "sid \<Rightarrow> kafkaStreamImpl \<Rightarrow> kafkaStreamImpl" where
  "Start c ks = ks\<lparr>trace := trace ks @ [EvStart c]\<rparr>"

definition sc_Close :: "sid \<Rightarrow> kafkaStreamImpl \<Rightarrow> kafkaStreamImpl" where
  "sc_Close c ks = ks\<lparr>trace := trace ks @ [EvSessionClose c]\<rparr>"

text \<open>
  \<^verbatim>\<open>Consume\<close> (lines 126--169). The partition \<open>partn\<close> is a Go \<^verbatim>\<open>int\<close>, taken as 64 bits
  wide and cut to 32 bits by \<^verbatim>\<open>int32(partition)\<close>. The result is the pair \<^verbatim>\<open>(*StreamConsumer, error)\<close> and
  the manager afterwards; \<open>None\<close> when the call never returns.
\<close>

definition Consume ::
  "(nat \<Rightarrow> handle option \<times> error option) \<Rightarrow> string \<Rightarrow> 64 word \<Rightarrow> 64 word \<Rightarrow>
   kafkaStreamImpl \<Rightarrow> ((sid option \<times> error option) \<times> kafkaStreamImpl) option" where
  "Consume tr topic partn offs ks =
     (if closing ks then Some ((None, Some ErrStreamClosing), ks)
      else
        (case open_loop tr topic (ucast partn)
                (if offs = 0 then OffsetOldest else offs) 0 None (trace ks) of
           None \<Rightarrow> None
         | Some (Inl e, evs) \<Rightarrow> Some ((None, Some e), ks\<lparr>trace := evs\<rparr>)
         | Some (Inr h, evs) \<Rightarrow>
             (case NewStreamConsumer h (ks\<lparr>trace := evs\<rparr>) of (c, ks1) \<Rightarrow>
                Some ((Some c, None),
                      Start c (ks1\<lparr>consumers := (consumers ks1)(c \<mapsto> True)\<rparr>)))))"

section \<open>CancelConsumer and Close\<close>

text \<open>\<^verbatim>\<open>CancelConsumer\<close> (lines 171--184): the error returned and the manager afterwards.\<close>

definition CancelConsumer :: "sid \<Rightarrow> kafkaStreamImpl \<Rightarrow> error option \<times> kafkaStreamImpl" where
  "CancelConsumer sc ks =
     (case consumers ks sc of
        Some _ \<Rightarrow> (None, (sc_Close sc ks)\<lparr>consumers := (consumers ks)(sc := None)\<rparr>)
      | None \<Rightarrow> (None, ks))"

text \<open>
  Go leaves the order in which \<^verbatim>\<open>range\<close> visits the keys of a map open: any list that
  holds every key once is a possible order.
\<close>

definition range_keys :: "('k \<rightharpoonup> 'v) \<Rightarrow> 'k list \<Rightarrow> bool" where
  "range_keys m ks \<longleftrightarrow> distinct ks \<and> set ks = dom m"

text \<open>
  \<^verbatim>\<open>Close\<close> (lines 186--200), for the order \<open>ord\<close> in which the loop visits the sessions:
  the flag, the loop over the sessions, the transport consumer's \<^verbatim>\<open>Close\<close>.
\<close>

definition set_closing :: "kafkaStreamImpl \<Rightarrow> kafkaStreamImpl" where
  "set_closing ks = ks\<lparr>closing := True, trace := trace ks @ [EvSetClosing]\<rparr>"

definition close_sessions :: "sid list \<Rightarrow> kafkaStreamImpl \<Rightarrow> kafkaStreamImpl" where
  "close_sessions ord ks = fold sc_Close ord ks"

definition consumer_Close :: "kafkaStreamImpl \<Rightarrow> kafkaStreamImpl" where
  "consumer_Close ks = ks\<lparr>trace := trace ks @ [EvTransportClose]\<rparr>"

definition Close :: "sid list \<Rightarrow> kafkaStreamImpl \<Rightarrow> kafkaStreamImpl" where
  "Close ord ks = consumer_Close (close_sessions ord (set_closing ks))"

text \<open>\<^verbatim>\<open>NewKafkaStream\<close> and \<^verbatim>\<open>NewMockKafkaStream\<close> leave the manager with an empty map.\<close>

definition new_stream :: kafkaStreamImpl where
  "new_stream = \<lparr>consumers = Map.empty, closing = False, trace = [], fresh = 0\<rparr>"

section \<open>Sequences of calls\<close>

text \<open>
  The three operations as steps of the manager: a call of \<^verbatim>\<open>Consume\<close> that returns, a call
  of \<^verbatim>\<open>CancelConsumer\<close>, and a call of \<^verbatim>\<open>Close\<close> whose loop visits the sessions in some
  order. \<open>run ks cs ks'\<close>: the calls \<open>cs\<close>, made one after the other, lead from \<open>ks\<close> to
  \<open>ks'\<close>.
\<close>

datatype call =
    CallConsume "nat \<Rightarrow> handle option \<times> error option" string "64 word" "64 word"
  | CallCancelConsumer sid
  | CallClose

inductive step :: "kafkaStreamImpl \<Rightarrow> call \<Rightarrow> kafkaStreamImpl \<Rightarrow> bool" where
  step_Consume:
    "Consume tr topic partn offs ks = Some (r, ks') \<Longrightarrow>
     step ks (CallConsume tr topic partn offs) ks'"
| step_CancelConsumer:
    "CancelConsumer sc ks = (r, ks') \<Longrightarrow> step ks (CallCancelConsumer sc) ks'"
| step_Close:
    "range_keys (consumers ks) ord \<Longrightarrow> step ks CallClose (Close ord ks)"

inductive run :: "kafkaStreamImpl \<Rightarrow> call list \<Rightarrow> kafkaStreamImpl \<Rightarrow> bool" where
  run_Nil: "run ks [] ks"
| run_Cons: "step ks c ks1 \<Longrightarrow> run ks1 cs ks2 \<Longrightarrow> run ks (c # cs) ks2"


section \<open>Connection bootstrap\<close>

text \<open>
  \<^verbatim>\<open>MustGetZookeeperClient\<close> (lines 22--47) either returns a client or panics with the error
  of the last attempt.
\<close>

datatype 'c bootstrap = Connected 'c | Panic error

text \<open>
  \<^verbatim>\<open>NewZookeeperClient\<close>, which is not among the sources, is a parameter, a script:
  \<open>nzk i servers\<close> is the pair \<^verbatim>\<open>(client, err)\<close> that call number \<open>i\<close> returns. \<^verbatim>\<open>retry\<close> and \<^verbatim>\<open>attempts\<close> are Go \<^verbatim>\<open>int\<close>s, taken as 64 bits wide and
  compared as signed numbers; the addition wraps. The loop yields the outcome and the
  number of calls made, and \<open>None\<close> when it runs forever. Between two calls it waits three
  seconds.
\<close>

partial_function (option) connect_loop ::
  "(nat \<Rightarrow> string list \<Rightarrow> 'c \<times> error option) \<Rightarrow> string list \<Rightarrow> 64 word \<Rightarrow>
   nat \<Rightarrow> 64 word \<Rightarrow> ('c bootstrap \<times> nat) option" where
  "connect_loop nzk servers retry i attempts =
     (case nzk i servers of (client, err) \<Rightarrow>
        (case err of
           Some e \<Rightarrow>
             if retry <s (if 0 <s retry then attempts + 1 else attempts)
             then Some (Panic e, Suc i)
             else connect_loop nzk servers retry (Suc i)
                    (if 0 <s retry then attempts + 1 else attempts)
         | None \<Rightarrow> Some (Connected client, Suc i)))"

definition MustGetZookeeperClient ::
  "(nat \<Rightarrow> string list \<Rightarrow> 'c \<times> error option) \<Rightarrow> string list \<Rightarrow> 64 word \<Rightarrow>
   ('c bootstrap \<times> nat) option" where
  "MustGetZookeeperClient nzk servers retry = connect_loop nzk servers retry 0 0"

section \<open>The in-memory coordination client\<close>

text \<open>
  Go's \<^verbatim>\<open>path.Dir\<close>: the path up to its last slash, cleaned. \<^verbatim>\<open>path.Clean\<close> drops empty
  elements and \<^verbatim>\<open>.\<close> elements, lets a \<^verbatim>\<open>..\<close> element remove the element before it, drops
  \<^verbatim>\<open>..\<close> elements at the start of a rooted path, and turns the empty result into a dot.
\<close>

fun split_slash :: "string \<Rightarrow> string list" where
  "split_slash [] = [[]]"
| "split_slash (c # cs) =
     (if c = CHR ''/'' then [] # split_slash cs
      else (case split_slash cs of [] \<Rightarrow> [[c]] | x # xs \<Rightarrow> (c # x) # xs))"

definition clean_element :: "bool \<Rightarrow> string \<Rightarrow> string list \<Rightarrow> string list" where
  "clean_element rooted el kept =
     (if el = [] \<or> el = ''.'' then kept
      else if el = ''..'' then
        (case kept of
           [] \<Rightarrow> if rooted then [] else [''..'']
         | k # ks \<Rightarrow> if k = ''..'' then ''..'' # kept else ks)
      else el # kept)"

fun join_slash :: "string list \<Rightarrow> string" where
  "join_slash [] = []"
| "join_slash [x] = x"
| "join_slash (x # y # ys) = x @ CHR ''/'' # join_slash (y # ys)"

definition Clean :: "string \<Rightarrow> string" where
  "Clean p =
     (if p = [] then ''.''
      else
        (let rooted = (hd p = CHR ''/'');
             body = join_slash (rev (fold (clean_element rooted) (split_slash p) []));
             out = (if rooted then CHR ''/'' # body else body)
         in if out = [] then ''.'' else out))"

definition Dir :: "string \<Rightarrow> string" where
  "Dir p = Clean (rev (dropWhile (\<lambda>c. c \<noteq> CHR ''/'') (rev p)))"

text \<open>
  \<^verbatim>\<open>encoding/json\<close> is a parameter: the check of the syntax that \<^verbatim>\<open>Unmarshal\<close> starts with,
  the storing of the decoded data into a variable (given its content, giving its new
  content), and \<^verbatim>\<open>Marshal\<close>. What is fixed here is the rule of \<^verbatim>\<open>Unmarshal\<close> that its second
  argument must be a pointer: for anything else it returns an \<^verbatim>\<open>InvalidUnmarshalError\<close>
  and stores nothing.
\<close>

type_synonym bytes = string

datatype passing = ByValue | ByPointer

record 'v json =
  checkValid :: "bytes \<Rightarrow> error option"
  decode :: "bytes \<Rightarrow> 'v \<Rightarrow> error option \<times> 'v"
  Marshal :: "'v \<Rightarrow> bytes \<times> error option"

definition Unmarshal :: "'v json \<Rightarrow> bytes \<Rightarrow> passing \<Rightarrow> 'v \<Rightarrow> error option \<times> 'v" where
  "Unmarshal J data how v =
     (case checkValid J data of
        Some e \<Rightarrow> (Some e, v)
      | None \<Rightarrow>
          (case how of
             ByPointer \<Rightarrow> decode J data v
           | ByValue \<Rightarrow> (Some InvalidUnmarshalError, v)))"

record mockZookeeperClient =
  paths :: "string \<rightharpoonup> bytes"

text \<open>
  \<^verbatim>\<open>List\<close> (lines 13--34 of the second file), for the order \<open>ord\<close> in which the loop visits
  the keys of the store.
\<close>

definition List :: "string list \<Rightarrow> mockZookeeperClient \<Rightarrow> string \<Rightarrow> string list \<times> error option" where
  "List ord zk prefix =
     (if prefix = [] then ([], None)
      else
        (let prefix' = (if last prefix = CHR ''/'' then butlast prefix else prefix)
         in (filter (\<lambda>k. prefix' = Dir k) ord, None)))"

text \<open>
  \<^verbatim>\<open>Get\<close> (lines 36--49): the argument \<^verbatim>\<open>i\<close> is given by the way it is passed and by the
  content of the variable or object behind it; the result is the error and that content
  afterwards.
\<close>

definition Get ::
  "'v json \<Rightarrow> mockZookeeperClient \<Rightarrow> string \<Rightarrow> passing \<Rightarrow> 'v \<Rightarrow> error option \<times> 'v" where
  "Get J zk path how i =
     (case paths zk path of
        None \<Rightarrow> (Some ErrNotFound, i)
      | Some data \<Rightarrow> Unmarshal J data how i)"



section \<open>Broker discovery\<close>

text \<open>
  Modelled from the spec: the interface \<^verbatim>\<open>ZookeeperClient\<close> is declared in a file that is
  not among the sources. Of the coordination client the spec lists \<^verbatim>\<open>List(prefix)\<close> and
  \<^verbatim>\<open>Get(key, out)\<close>, which broker discovery calls.
\<close>

record 'v ZookeeperClient =
  zk_List :: "string \<Rightarrow> string list \<times> error option"
  zk_Get :: "string \<Rightarrow> passing \<Rightarrow> 'v \<Rightarrow> error option \<times> 'v"

definition mock_client ::
  "'v json \<Rightarrow> string list \<Rightarrow> mockZookeeperClient \<Rightarrow> 'v ZookeeperClient" where
  "mock_client J ord zk = \<lparr>zk_List = List ord zk, zk_Get = Get J zk\<rparr>"

text \<open>
  \<^verbatim>\<open>fmt.Sprintf("%s:%0.0f", data["host"], data["port"])\<close>: what the two verbs print for an
  operand is a parameter; an operand is the value found in the map, or nil (\<open>None\<close>) when
  the key is missing.
\<close>

record 'j fmt =
  verb_s :: "'j option \<Rightarrow> string"
  verb_f :: "'j option \<Rightarrow> string"

definition Sprintf :: "'j fmt \<Rightarrow> 'j option \<Rightarrow> 'j option \<Rightarrow> string" where
  "Sprintf F host port = verb_s F host @ '':'' @ verb_f F port"

text \<open>
  The loop of \<^verbatim>\<open>findRegisteredBrokers\<close> (lines 58--67): \<^verbatim>\<open>data\<close> is a new empty map in each
  round, and a map is handed to \<^verbatim>\<open>Get\<close> as it is, not through a pointer.
\<close>

fun brokers_loop ::
  "'j fmt \<Rightarrow> (string \<rightharpoonup> 'j) ZookeeperClient \<Rightarrow> string list \<Rightarrow> string list \<Rightarrow>
   string list \<times> error option" where
  "brokers_loop F zk [] fullPaths = (fullPaths, None)"
| "brokers_loop F zk (p # ps) fullPaths =
     (case zk_Get zk p ByValue Map.empty of
        (Some e, data) \<Rightarrow> ([], Some e)
      | (None, data) \<Rightarrow>
          brokers_loop F zk ps (fullPaths @ [Sprintf F (data ''host'') (data ''port'')]))"

definition findRegisteredBrokers ::
  "'j fmt \<Rightarrow> (string \<rightharpoonup> 'j) ZookeeperClient \<Rightarrow> string list \<times> error option" where
  "findRegisteredBrokers F zk =
     (case zk_List zk ''/brokers/ids'' of
        (ps, Some e) \<Rightarrow> ([], Some e)
      | (ps, None) \<Rightarrow> brokers_loop F zk ps [])"

section \<open>Properties of Consume\<close>

subsection \<open>Unfolding the loop\<close>

lemma open_loop_Some: "open_loop tr topic part offs i (Some h) evs = Some (Inr h, evs)"
  by (subst open_loop.simps) simp

lemma open_loop_unknown:
  "tr i = (pc', Some ErrUnknownTopicOrPartition) \<Longrightarrow>
   open_loop tr topic part offs i None evs =
   open_loop tr topic part offs (Suc i) pc' (evs @ [EvConsumePartition topic part offs, EvWait 5])"
  by (subst open_loop.simps) simp

lemma open_loop_error:
  "tr i = (pc', Some e) \<Longrightarrow> e \<noteq> ErrUnknownTopicOrPartition \<Longrightarrow>
   open_loop tr topic part offs i None evs =
   Some (Inl e, evs @ [EvConsumePartition topic part offs])"
  by (subst open_loop.simps) simp

lemma open_loop_ok:
  "tr i = (pc', None) \<Longrightarrow>
   open_loop tr topic part offs i None evs =
   open_loop tr topic part offs (Suc i) pc' (evs @ [EvConsumePartition topic part offs])"
  by (subst open_loop.simps) simp

lemma open_loop_not_unknown:
  assumes "open_loop tr topic part offs i pc evs = Some y"
  shows "fst y \<noteq> Inl ErrUnknownTopicOrPartition"
  by (rule open_loop.raw_induct
        [where P = "\<lambda>tr topic part offs i pc evs y. fst y \<noteq> Inl ErrUnknownTopicOrPartition",
         OF _ assms])
     (auto split: option.splits prod.splits if_splits)

lemma open_loop_trace:
  assumes "open_loop tr topic part offs i pc evs = Some y"
  shows "\<exists>new. snd y = evs @ new \<and>
         set new \<subseteq> {EvConsumePartition topic part offs, EvWait 5} \<and>
         (pc = None \<longrightarrow> EvConsumePartition topic part offs \<in> set new)"
  by (rule open_loop.raw_induct
        [where P = "\<lambda>tr topic part offs i pc evs y. \<exists>new. snd y = evs @ new \<and>
           set new \<subseteq> {EvConsumePartition topic part offs, EvWait 5} \<and>
           (pc = None \<longrightarrow> EvConsumePartition topic part offs \<in> set new)",
         OF _ assms])
     (fastforce split: option.splits prod.splits if_splits)

lemma open_loop_forever:
  assumes "open_loop tr topic part offs i pc evs = Some y"
  shows "pc = None \<longrightarrow> \<not> (\<forall>j\<ge>i. tr j = (None, Some ErrUnknownTopicOrPartition))"
  by (rule open_loop.raw_induct
        [where P = "\<lambda>tr topic part offs i pc evs y.
           pc = None \<longrightarrow> \<not> (\<forall>j\<ge>i. tr j = (None, Some ErrUnknownTopicOrPartition))",
         OF _ assms])
     (auto split: option.splits prod.splits if_splits,
      (metis Suc_leD order_refl fst_conv option.distinct(1))+)

lemma open_loop_retries:
  "\<forall>j<k. tr (i + j) = (None, Some ErrUnknownTopicOrPartition) \<Longrightarrow>
   open_loop tr topic part offs i None evs =
   open_loop tr topic part offs (i + k) None
     (evs @ concat (replicate k [EvConsumePartition topic part offs, EvWait 5]))"
proof (induction k arbitrary: i evs)
  case 0
  then show ?case by simp
next
  case (Suc k)
  have first: "tr i = (None, Some ErrUnknownTopicOrPartition)"
    using Suc.prems by (metis add.right_neutral zero_less_Suc)
  have rest: "\<forall>j<k. tr (Suc i + j) = (None, Some ErrUnknownTopicOrPartition)"
    using Suc.prems by (metis Suc_less_eq add_Suc_shift)
  show ?case
    using Suc.IH [OF rest] first by (simp add: open_loop_unknown [of tr i None])
qed


lemma open_loop_None:
  "open_loop tr topic part offs i None evs =
     (case tr i of (pc', err) \<Rightarrow>
        if err = Some ErrUnknownTopicOrPartition
        then open_loop tr topic part offs (Suc i) pc'
               (evs @ [EvConsumePartition topic part offs, EvWait 5])
        else (case err of
                Some e \<Rightarrow> Some (Inl e, evs @ [EvConsumePartition topic part offs])
              | None \<Rightarrow> open_loop tr topic part offs (Suc i) pc'
                          (evs @ [EvConsumePartition topic part offs])))"
  by (subst open_loop.simps) simp


subsection \<open>A closing manager accepts no work\<close>

text \<open>
  Claim C1. When the closing flag is set, \<^verbatim>\<open>Consume\<close> returns at once, with no session and
  the error \<open>ErrStreamClosing\<close>, and the manager is as before: the set of sessions is
  unchanged and nothing was asked of the transport.
\<close>

theorem Consume_closing_fails:
  "closing ks \<Longrightarrow>
   Consume tr topic partn offs ks = Some ((None, Some ErrStreamClosing), ks)"
  by (simp add: Consume_def)

theorem Consume_closing_fails_witness:
  "closing (Close [] new_stream) \<and>
   Consume (\<lambda>i. (Some 1, None)) ''events'' 0 0 (Close [] new_stream) =
     Some ((None, Some ErrStreamClosing), Close [] new_stream)"
proof -
  have c: "closing (Close [] new_stream)"
    by (simp add: Close_def consumer_Close_def close_sessions_def set_closing_def)
  show ?thesis
    using c Consume_closing_fails [OF c] by simp
qed


subsection \<open>What a call of Consume returns\<close>

lemma Consume_never_unknown:
  assumes "Consume tr topic partn offs ks = Some (r, ks')"
  shows "snd r \<noteq> Some ErrUnknownTopicOrPartition"
proof (cases "closing ks")
  case True
  then show ?thesis using assms by (auto simp: Consume_def)
next
  case False
  then obtain y where y: "open_loop tr topic (ucast partn)
      (if offs = 0 then OffsetOldest else offs) 0 None (trace ks) = Some y"
    using assms by (auto simp: Consume_def split: option.splits)
  show ?thesis
    using open_loop_not_unknown [OF y] assms False y
    by (cases y; cases "fst y")
       (auto simp: Consume_def NewStreamConsumer_def split: prod.splits)
qed

lemma Consume_other_error:
  assumes "\<not> closing ks" and "\<forall>j<k. tr j = (None, Some ErrUnknownTopicOrPartition)"
    and "tr k = (pc, Some e)" and "e \<noteq> ErrUnknownTopicOrPartition"
  shows "Consume tr topic partn offs ks =
     Some ((None, Some e),
       ks\<lparr>trace := trace ks @
          concat (replicate k [EvConsumePartition topic (ucast partn)
                    (if offs = 0 then OffsetOldest else offs), EvWait 5]) @
          [EvConsumePartition topic (ucast partn) (if offs = 0 then OffsetOldest else offs)]\<rparr>)"
proof -
  have "\<forall>j<k. tr (0 + j) = (None, Some ErrUnknownTopicOrPartition)"
    using assms(2) by simp
  from open_loop_retries [OF this] show ?thesis
    using assms(1,3,4) by (simp add: Consume_def open_loop_error [of tr k pc e])
qed

lemma Consume_success:
  assumes "\<not> closing ks" and "\<forall>j<k. tr j = (None, Some ErrUnknownTopicOrPartition)"
    and "tr k = (Some h, None)"
  shows "Consume tr topic partn offs ks =
     Some ((Some (fresh ks), None),
       ks\<lparr>consumers := (consumers ks)(fresh ks \<mapsto> True),
          trace := trace ks @
          concat (replicate k [EvConsumePartition topic (ucast partn)
                    (if offs = 0 then OffsetOldest else offs), EvWait 5]) @
          [EvConsumePartition topic (ucast partn) (if offs = 0 then OffsetOldest else offs),
           EvNewStreamConsumer (fresh ks) h, EvStart (fresh ks)],
          fresh := Suc (fresh ks)\<rparr>)"
proof -
  have "\<forall>j<k. tr (0 + j) = (None, Some ErrUnknownTopicOrPartition)"
    using assms(2) by simp
  from open_loop_retries [OF this] show ?thesis
    using assms(1,3)
    by (simp add: Consume_def open_loop_ok [of tr k "Some h"] open_loop_Some
          NewStreamConsumer_def Start_def)
qed

lemma Consume_forever:
  assumes "\<not> closing ks" and "\<forall>j. tr j = (None, Some ErrUnknownTopicOrPartition)"
  shows "Consume tr topic partn offs ks = None"
proof (cases "open_loop tr topic (ucast partn)
      (if offs = 0 then OffsetOldest else offs) 0 None (trace ks)")
  case None
  then show ?thesis using assms(1) by (simp add: Consume_def)
next
  case (Some y)
  from open_loop_forever [OF this] assms(2) show ?thesis by simp
qed


subsection \<open>The start offset\<close>

lemma Consume_trace:
  assumes "\<not> closing ks" and "Consume tr topic partn offs ks = Some (r, ks')"
  shows "\<exists>new rest. trace ks' = trace ks @ new @ rest \<and>
           set new \<subseteq> {EvConsumePartition topic (ucast partn)
                          (if offs = 0 then OffsetOldest else offs), EvWait 5} \<and>
           EvConsumePartition topic (ucast partn)
              (if offs = 0 then OffsetOldest else offs) \<in> set new \<and>
           (\<forall>t p off. EvConsumePartition t p off \<notin> set rest)"
proof -
  let ?o = "if offs = 0 then OffsetOldest else offs"
  obtain y where y: "open_loop tr topic (ucast partn) ?o 0 None (trace ks) = Some y"
    using assms by (auto simp: Consume_def split: option.splits)
  obtain new where new: "snd y = trace ks @ new"
      "set new \<subseteq> {EvConsumePartition topic (ucast partn) ?o, EvWait 5}"
      "EvConsumePartition topic (ucast partn) ?o \<in> set new"
    using open_loop_trace [OF y] by auto
  show ?thesis
  proof (cases "fst y")
    case (Inl e)
    then have "trace ks' = trace ks @ new @ []"
      using assms y new(1) by (cases y) (auto simp: Consume_def)
    then show ?thesis using new(2,3)
      by (intro exI [of _ new] exI [of _ "[]"]) simp
  next
    case (Inr h)
    then have "trace ks' = trace ks @ new @ [EvNewStreamConsumer (fresh ks) h, EvStart (fresh ks)]"
      using assms y new(1)
      by (cases y) (auto simp: Consume_def NewStreamConsumer_def Start_def)
    then show ?thesis using new(2,3)
      by (intro exI [of _ new] exI [of _ "[EvNewStreamConsumer (fresh ks) h, EvStart (fresh ks)]"])
         simp
  qed
qed


text \<open>
  Claim C3. The sentinel for the oldest record is not zero. On a manager that is not
  closing, when the transport answers \<open>k\<close> times that the partition is unknown and then
  with a handle or with another error, \<^verbatim>\<open>Consume\<close> returns, and each of its \<open>k + 1\<close> calls
  of \<^verbatim>\<open>ConsumePartition\<close> was made at the sentinel when the offset given is zero, and at
  the offset given when it is not zero. Whatever the transport answers, a call of
  \<^verbatim>\<open>Consume\<close> that returns has asked the transport at least once and at no other offset.
\<close>

theorem Consume_offset_zero_is_oldest:
  "OffsetOldest \<noteq> 0 \<and>
   (\<not> closing ks \<and> (\<forall>j<k. tr j = (None, Some ErrUnknownTopicOrPartition)) \<and>
      tr k = (Some h, None) \<longrightarrow>
    Consume tr topic partn 0 ks =
      Some ((Some (fresh ks), None),
        ks\<lparr>consumers := (consumers ks)(fresh ks \<mapsto> True),
           trace := trace ks @
           concat (replicate k [EvConsumePartition topic (ucast partn) OffsetOldest, EvWait 5]) @
           [EvConsumePartition topic (ucast partn) OffsetOldest,
            EvNewStreamConsumer (fresh ks) h, EvStart (fresh ks)],
           fresh := Suc (fresh ks)\<rparr>)) \<and>
   (\<not> closing ks \<and> offs \<noteq> 0 \<and> (\<forall>j<k. tr j = (None, Some ErrUnknownTopicOrPartition)) \<and>
      tr k = (Some h, None) \<longrightarrow>
    Consume tr topic partn offs ks =
      Some ((Some (fresh ks), None),
        ks\<lparr>consumers := (consumers ks)(fresh ks \<mapsto> True),
           trace := trace ks @
           concat (replicate k [EvConsumePartition topic (ucast partn) offs, EvWait 5]) @
           [EvConsumePartition topic (ucast partn) offs,
            EvNewStreamConsumer (fresh ks) h, EvStart (fresh ks)],
           fresh := Suc (fresh ks)\<rparr>)) \<and>
   (\<not> closing ks \<and> (\<forall>j<k. tr j = (None, Some ErrUnknownTopicOrPartition)) \<and>
      tr k = (pc, Some e) \<and> e \<noteq> ErrUnknownTopicOrPartition \<longrightarrow>
    Consume tr topic partn 0 ks =
      Some ((None, Some e),
        ks\<lparr>trace := trace ks @
           concat (replicate k [EvConsumePartition topic (ucast partn) OffsetOldest, EvWait 5]) @
           [EvConsumePartition topic (ucast partn) OffsetOldest]\<rparr>)) \<and>
   (\<not> closing ks \<and> offs \<noteq> 0 \<and> (\<forall>j<k. tr j = (None, Some ErrUnknownTopicOrPartition)) \<and>
      tr k = (pc, Some e) \<and> e \<noteq> ErrUnknownTopicOrPartition \<longrightarrow>
    Consume tr topic partn offs ks =
      Some ((None, Some e),
        ks\<lparr>trace := trace ks @
           concat (replicate k [EvConsumePartition topic (ucast partn) offs, EvWait 5]) @
           [EvConsumePartition topic (ucast partn) offs]\<rparr>)) \<and>
   (\<forall>r ks'. \<not> closing ks \<and> Consume tr topic partn offs ks = Some (r, ks') \<longrightarrow>
      (\<exists>evs. trace ks' = trace ks @ evs \<and>
         (\<exists>t p off. EvConsumePartition t p off \<in> set evs) \<and>
         (\<forall>t p off. EvConsumePartition t p off \<in> set evs \<longrightarrow>
            off = (if offs = 0 then OffsetOldest else offs))))"
proof -
  have sentinel: "OffsetOldest \<noteq> 0"
    by (simp add: OffsetOldest_def)
  have zero_ok: "\<not> closing ks \<and> (\<forall>j<k. tr j = (None, Some ErrUnknownTopicOrPartition)) \<and>
      tr k = (Some h, None) \<longrightarrow>
    Consume tr topic partn 0 ks =
      Some ((Some (fresh ks), None),
        ks\<lparr>consumers := (consumers ks)(fresh ks \<mapsto> True),
           trace := trace ks @
           concat (replicate k [EvConsumePartition topic (ucast partn) OffsetOldest, EvWait 5]) @
           [EvConsumePartition topic (ucast partn) OffsetOldest,
            EvNewStreamConsumer (fresh ks) h, EvStart (fresh ks)],
           fresh := Suc (fresh ks)\<rparr>)"
    using Consume_success [of ks k tr h topic partn 0] by simp
  have literal_ok: "\<not> closing ks \<and> offs \<noteq> 0 \<and>
      (\<forall>j<k. tr j = (None, Some ErrUnknownTopicOrPartition)) \<and> tr k = (Some h, None) \<longrightarrow>
    Consume tr topic partn offs ks =
      Some ((Some (fresh ks), None),
        ks\<lparr>consumers := (consumers ks)(fresh ks \<mapsto> True),
           trace := trace ks @
           concat (replicate k [EvConsumePartition topic (ucast partn) offs, EvWait 5]) @
           [EvConsumePartition topic (ucast partn) offs,
            EvNewStreamConsumer (fresh ks) h, EvStart (fresh ks)],
           fresh := Suc (fresh ks)\<rparr>)"
    using Consume_success [of ks k tr h topic partn offs] by simp
  have zero_err: "\<not> closing ks \<and> (\<forall>j<k. tr j = (None, Some ErrUnknownTopicOrPartition)) \<and>
      tr k = (pc, Some e) \<and> e \<noteq> ErrUnknownTopicOrPartition \<longrightarrow>
    Consume tr topic partn 0 ks =
      Some ((None, Some e),
        ks\<lparr>trace := trace ks @
           concat (replicate k [EvConsumePartition topic (ucast partn) OffsetOldest, EvWait 5]) @
           [EvConsumePartition topic (ucast partn) OffsetOldest]\<rparr>)"
    using Consume_other_error [of ks k tr pc e topic partn 0] by simp
  have literal_err: "\<not> closing ks \<and> offs \<noteq> 0 \<and>
      (\<forall>j<k. tr j = (None, Some ErrUnknownTopicOrPartition)) \<and>
      tr k = (pc, Some e) \<and> e \<noteq> ErrUnknownTopicOrPartition \<longrightarrow>
    Consume tr topic partn offs ks =
      Some ((None, Some e),
        ks\<lparr>trace := trace ks @
           concat (replicate k [EvConsumePartition topic (ucast partn) offs, EvWait 5]) @
           [EvConsumePartition topic (ucast partn) offs]\<rparr>)"
    using Consume_other_error [of ks k tr pc e topic partn offs] by simp
  have part: "\<forall>r ks'. \<not> closing ks \<and> Consume tr topic partn offs ks = Some (r, ks') \<longrightarrow>
      (\<exists>evs. trace ks' = trace ks @ evs \<and>
         (\<exists>t p off. EvConsumePartition t p off \<in> set evs) \<and>
         (\<forall>t p off. EvConsumePartition t p off \<in> set evs \<longrightarrow>
            off = (if offs = 0 then OffsetOldest else offs)))"
  proof (intro allI impI, elim conjE)
    fix r ks'
    assume nc: "\<not> closing ks" and res: "Consume tr topic partn offs ks = Some (r, ks')"
    obtain new rest where nr: "trace ks' = trace ks @ new @ rest"
        "set new \<subseteq> {EvConsumePartition topic (ucast partn)
                            (if offs = 0 then OffsetOldest else offs), EvWait 5}"
        "EvConsumePartition topic (ucast partn)
                (if offs = 0 then OffsetOldest else offs) \<in> set new"
        "\<forall>t p off. EvConsumePartition t p off \<notin> set rest"
      using Consume_trace [OF nc res] by blast
    have "\<forall>t p off. EvConsumePartition t p off \<in> set (new @ rest) \<longrightarrow>
                 off = (if offs = 0 then OffsetOldest else offs)"
      using nr(2,4) by auto
    moreover have "\<exists>t p off. EvConsumePartition t p off \<in> set (new @ rest)"
      using nr(3) by auto
    ultimately show "\<exists>evs. trace ks' = trace ks @ evs \<and>
         (\<exists>t p off. EvConsumePartition t p off \<in> set evs) \<and>
         (\<forall>t p off. EvConsumePartition t p off \<in> set evs \<longrightarrow>
            off = (if offs = 0 then OffsetOldest else offs))"
      using nr(1) by blast
  qed
  show ?thesis
    by (intro conjI) (rule sentinel, rule zero_ok, rule literal_ok, rule zero_err,
      rule literal_err, rule part)
qed

theorem Consume_offset_zero_is_oldest_witness:
  "\<not> closing new_stream \<and>
   Consume (\<lambda>i. if i < 1 then (None, Some ErrUnknownTopicOrPartition) else (Some 7, None))
       ''events'' 3 0 new_stream =
     Some ((Some 0, None),
       \<lparr>consumers = [0 \<mapsto> True], closing = False,
        trace = [EvConsumePartition ''events'' 3 (- 2), EvWait 5,
                 EvConsumePartition ''events'' 3 (- 2), EvNewStreamConsumer 0 7, EvStart 0],
        fresh = 1\<rparr>) \<and>
   (9 :: 64 word) \<noteq> 0 \<and>
   Consume (\<lambda>i. if i < 1 then (None, Some ErrUnknownTopicOrPartition) else (Some 7, None))
       ''events'' 3 9 new_stream =
     Some ((Some 0, None),
       \<lparr>consumers = [0 \<mapsto> True], closing = False,
        trace = [EvConsumePartition ''events'' 3 9, EvWait 5,
                 EvConsumePartition ''events'' 3 9, EvNewStreamConsumer 0 7, EvStart 0],
        fresh = 1\<rparr>) \<and>
   Consume (\<lambda>i. (None, Some (OtherError 3))) ''events'' 3 0 new_stream =
     Some ((None, Some (OtherError 3)),
       new_stream\<lparr>trace := [EvConsumePartition ''events'' 3 (- 2)]\<rparr>) \<and>
   Consume (\<lambda>i. (None, Some (OtherError 3))) ''events'' 3 9 new_stream =
     Some ((None, Some (OtherError 3)),
       new_stream\<lparr>trace := [EvConsumePartition ''events'' 3 9]\<rparr>) \<and>
   OffsetOldest \<noteq> 0"
proof -
  let ?tr = "\<lambda>i::nat. if i < 1 then (None, Some ErrUnknownTopicOrPartition)
                       else (Some (7::nat), None)"
  let ?er = "\<lambda>i::nat. (None :: handle option, Some (OtherError 3))"
  note retry = Consume_offset_zero_is_oldest
      [of new_stream "Suc 0" ?tr 7 "''events''" 3 9 None "OtherError 3"]
  note fail = Consume_offset_zero_is_oldest
      [of new_stream 0 ?er 7 "''events''" 3 9 None "OtherError 3"]
  have nc: "\<not> closing new_stream"
    by (simp add: new_stream_def)
  have nz: "(9 :: 64 word) \<noteq> 0"
    by simp
  have unknown: "\<forall>j<Suc 0. ?tr j = (None, Some ErrUnknownTopicOrPartition)"
    by simp
  have handle: "?tr (Suc 0) = (Some 7, None)"
    by simp
  have none: "\<forall>j<0::nat. ?er j = (None, Some ErrUnknownTopicOrPartition)"
    by simp
  have other: "?er 0 = (None, Some (OtherError 3))" "OtherError 3 \<noteq> ErrUnknownTopicOrPartition"
    by simp_all
  have a: "Consume ?tr ''events'' 3 0 new_stream =
      Some ((Some (fresh new_stream), None),
        new_stream\<lparr>consumers := (consumers new_stream)(fresh new_stream \<mapsto> True),
           trace := trace new_stream @
           concat (replicate (Suc 0) [EvConsumePartition ''events'' (ucast (3 :: 64 word)) OffsetOldest, EvWait 5]) @
           [EvConsumePartition ''events'' (ucast (3 :: 64 word)) OffsetOldest,
            EvNewStreamConsumer (fresh new_stream) 7, EvStart (fresh new_stream)],
           fresh := Suc (fresh new_stream)\<rparr>)"
    using retry nc unknown handle by blast
  have b: "Consume ?tr ''events'' 3 9 new_stream =
      Some ((Some (fresh new_stream), None),
        new_stream\<lparr>consumers := (consumers new_stream)(fresh new_stream \<mapsto> True),
           trace := trace new_stream @
           concat (replicate (Suc 0) [EvConsumePartition ''events'' (ucast (3 :: 64 word)) 9, EvWait 5]) @
           [EvConsumePartition ''events'' (ucast (3 :: 64 word)) 9,
            EvNewStreamConsumer (fresh new_stream) 7, EvStart (fresh new_stream)],
           fresh := Suc (fresh new_stream)\<rparr>)"
    using retry nc nz unknown handle by blast
  have c: "Consume ?er ''events'' 3 0 new_stream =
      Some ((None, Some (OtherError 3)),
        new_stream\<lparr>trace := trace new_stream @
           concat (replicate 0 [EvConsumePartition ''events'' (ucast (3 :: 64 word)) OffsetOldest, EvWait 5]) @
           [EvConsumePartition ''events'' (ucast (3 :: 64 word)) OffsetOldest]\<rparr>)"
    using fail nc none other by blast
  have d: "Consume ?er ''events'' 3 9 new_stream =
      Some ((None, Some (OtherError 3)),
        new_stream\<lparr>trace := trace new_stream @
           concat (replicate 0 [EvConsumePartition ''events'' (ucast (3 :: 64 word)) 9, EvWait 5]) @
           [EvConsumePartition ''events'' (ucast (3 :: 64 word)) 9]\<rparr>)"
    using fail nc nz none other by blast
  have s: "OffsetOldest \<noteq> 0"
    using retry by blast
  have a': "Consume ?tr ''events'' 3 0 new_stream =
     Some ((Some 0, None),
       \<lparr>consumers = [0 \<mapsto> True], closing = False,
        trace = [EvConsumePartition ''events'' 3 (- 2), EvWait 5,
                 EvConsumePartition ''events'' 3 (- 2), EvNewStreamConsumer 0 7, EvStart 0],
        fresh = 1\<rparr>)"
    unfolding a by (simp add: new_stream_def OffsetOldest_def)
  have b': "Consume ?tr ''events'' 3 9 new_stream =
     Some ((Some 0, None),
       \<lparr>consumers = [0 \<mapsto> True], closing = False,
        trace = [EvConsumePartition ''events'' 3 9, EvWait 5,
                 EvConsumePartition ''events'' 3 9, EvNewStreamConsumer 0 7, EvStart 0],
        fresh = 1\<rparr>)"
    unfolding b by (simp add: new_stream_def)
  have c': "Consume ?er ''events'' 3 0 new_stream =
     Some ((None, Some (OtherError 3)),
       new_stream\<lparr>trace := [EvConsumePartition ''events'' 3 (- 2)]\<rparr>)"
    unfolding c by (simp add: new_stream_def OffsetOldest_def)
  have d': "Consume ?er ''events'' 3 9 new_stream =
     Some ((None, Some (OtherError 3)),
       new_stream\<lparr>trace := [EvConsumePartition ''events'' 3 9]\<rparr>)"
    unfolding d by (simp add: new_stream_def)
  show ?thesis
    by (intro conjI) (rule nc, rule a', rule nz, rule b', rule c', rule d', rule s)
qed

subsection \<open>Retrying while the partition is unknown\<close>

text \<open>
  Claim C4. \<^verbatim>\<open>Consume\<close> never returns the transport's error for an unknown topic or
  partition. While the transport answers with it, the call is repeated after a wait of
  five seconds: after \<open>k\<close> such answers, any other error of call \<open>k\<close> is returned with no
  further call, a handle of call \<open>k\<close> becomes a registered, started session, and a
  transport that answers so forever keeps \<^verbatim>\<open>Consume\<close> from returning.
\<close>

theorem Consume_unknown_topic_retried:
  "(\<forall>r ks'. Consume tr topic partn offs ks = Some (r, ks') \<longrightarrow>
      snd r \<noteq> Some ErrUnknownTopicOrPartition) \<and>
   (\<not> closing ks \<and> (\<forall>j<k. tr j = (None, Some ErrUnknownTopicOrPartition)) \<and>
      tr k = (pc, Some e) \<and> e \<noteq> ErrUnknownTopicOrPartition \<longrightarrow>
    Consume tr topic partn offs ks =
      Some ((None, Some e),
        ks\<lparr>trace := trace ks @
           concat (replicate k [EvConsumePartition topic (ucast partn)
                     (if offs = 0 then OffsetOldest else offs), EvWait 5]) @
           [EvConsumePartition topic (ucast partn)
              (if offs = 0 then OffsetOldest else offs)]\<rparr>)) \<and>
   (\<not> closing ks \<and> (\<forall>j<k. tr j = (None, Some ErrUnknownTopicOrPartition)) \<and>
      tr k = (Some h, None) \<longrightarrow>
    Consume tr topic partn offs ks =
      Some ((Some (fresh ks), None),
        ks\<lparr>consumers := (consumers ks)(fresh ks \<mapsto> True),
           trace := trace ks @
           concat (replicate k [EvConsumePartition topic (ucast partn)
                     (if offs = 0 then OffsetOldest else offs), EvWait 5]) @
           [EvConsumePartition topic (ucast partn) (if offs = 0 then OffsetOldest else offs),
            EvNewStreamConsumer (fresh ks) h, EvStart (fresh ks)],
           fresh := Suc (fresh ks)\<rparr>)) \<and>
   (\<not> closing ks \<and> (\<forall>j. tr j = (None, Some ErrUnknownTopicOrPartition)) \<longrightarrow>
    Consume tr topic partn offs ks = None)"
  using Consume_never_unknown [of tr topic partn offs ks]
    Consume_other_error [of ks k tr pc e topic partn offs]
    Consume_success [of ks k tr h topic partn offs]
    Consume_forever [of ks tr topic partn offs]
  by blast

theorem Consume_unknown_topic_retried_witness:
  "\<not> closing new_stream \<and>
   Consume (\<lambda>i. if i < 2 then (None, Some ErrUnknownTopicOrPartition)
                 else (None, Some (OtherError 3))) ''events'' 3 9 new_stream =
     Some ((None, Some (OtherError 3)),
       new_stream\<lparr>trace := [EvConsumePartition ''events'' 3 9, EvWait 5,
                             EvConsumePartition ''events'' 3 9, EvWait 5,
                             EvConsumePartition ''events'' 3 9]\<rparr>) \<and>
   Consume (\<lambda>i. if i < 2 then (None, Some ErrUnknownTopicOrPartition)
                 else (Some 7, None)) ''events'' 3 9 new_stream =
     Some ((Some 0, None),
       \<lparr>consumers = [0 \<mapsto> True], closing = False,
        trace = [EvConsumePartition ''events'' 3 9, EvWait 5,
                 EvConsumePartition ''events'' 3 9, EvWait 5,
                 EvConsumePartition ''events'' 3 9, EvNewStreamConsumer 0 7, EvStart 0],
        fresh = 1\<rparr>) \<and>
   Consume (\<lambda>i. (None, Some ErrUnknownTopicOrPartition)) ''events'' 3 9 new_stream = None"
  using
    Consume_unknown_topic_retried
      [of "\<lambda>i. if i < 2 then (None, Some ErrUnknownTopicOrPartition) else (None, Some (OtherError 3))"
          "''events''" 3 9 new_stream "Suc (Suc 0)" None "OtherError 3" 7]
    Consume_unknown_topic_retried
      [of "\<lambda>i. if i < 2 then (None, Some ErrUnknownTopicOrPartition) else (Some 7, None)"
          "''events''" 3 9 new_stream "Suc (Suc 0)" None "OtherError 3" 7]
    Consume_unknown_topic_retried
      [of "\<lambda>i. (None, Some ErrUnknownTopicOrPartition)"
          "''events''" 3 9 new_stream "Suc (Suc 0)" None "OtherError 3" 7]
  by (simp add: new_stream_def)


section \<open>Properties of CancelConsumer and Close\<close>

lemma close_sessions_fields:
  "consumers (close_sessions ord ks) = consumers ks \<and>
   closing (close_sessions ord ks) = closing ks \<and>
   fresh (close_sessions ord ks) = fresh ks \<and>
   trace (close_sessions ord ks) = trace ks @ map EvSessionClose ord"
  unfolding close_sessions_def
  by (induction ord arbitrary: ks) (simp_all add: sc_Close_def)


text \<open>
  Claim C2. \<^verbatim>\<open>CancelConsumer\<close> returns a nil error, also when called a second time on the
  same session; the second call changes nothing; the first call invokes the session's
  \<^verbatim>\<open>Close\<close> once if the session is registered and not at all otherwise, so across the two
  calls it is invoked once for a registered session; and for a session that is not
  registered the call leaves the manager as it is.
\<close>

theorem CancelConsumer_idempotent:
  "fst (CancelConsumer sc ks) = None \<and>
   fst (CancelConsumer sc (snd (CancelConsumer sc ks))) = None \<and>
   snd (CancelConsumer sc (snd (CancelConsumer sc ks))) = snd (CancelConsumer sc ks) \<and>
   trace (snd (CancelConsumer sc ks)) =
     trace ks @ (if sc \<in> dom (consumers ks) then [EvSessionClose sc] else []) \<and>
   consumers (snd (CancelConsumer sc ks)) = (consumers ks)(sc := None) \<and>
   (sc \<notin> dom (consumers ks) \<longrightarrow> snd (CancelConsumer sc ks) = ks)"
  by (auto simp: CancelConsumer_def sc_Close_def split: option.splits)

theorem CancelConsumer_idempotent_witness:
  "1 \<in> dom (consumers \<lparr>consumers = [1 \<mapsto> True, 2 \<mapsto> True], closing = False, trace = [], fresh = 3\<rparr>) \<and>
   5 \<notin> dom (consumers \<lparr>consumers = [1 \<mapsto> True, 2 \<mapsto> True], closing = False, trace = [], fresh = 3\<rparr>) \<and>
   fst (CancelConsumer 1 \<lparr>consumers = [1 \<mapsto> True, 2 \<mapsto> True], closing = False, trace = [], fresh = 3\<rparr>) = None \<and>
   snd (CancelConsumer 1 \<lparr>consumers = [1 \<mapsto> True, 2 \<mapsto> True], closing = False, trace = [], fresh = 3\<rparr>) =
     \<lparr>consumers = [2 \<mapsto> True], closing = False, trace = [EvSessionClose 1], fresh = 3\<rparr> \<and>
   CancelConsumer 1 \<lparr>consumers = [2 \<mapsto> True], closing = False, trace = [EvSessionClose 1], fresh = 3\<rparr> =
     (None, \<lparr>consumers = [2 \<mapsto> True], closing = False, trace = [EvSessionClose 1], fresh = 3\<rparr>) \<and>
   CancelConsumer 5 \<lparr>consumers = [1 \<mapsto> True, 2 \<mapsto> True], closing = False, trace = [], fresh = 3\<rparr> =
     (None, \<lparr>consumers = [1 \<mapsto> True, 2 \<mapsto> True], closing = False, trace = [], fresh = 3\<rparr>)"
proof -
  let ?ks = "\<lparr>consumers = [1 \<mapsto> True, 2 \<mapsto> True], closing = False, trace = [], fresh = 3::nat\<rparr>"
  let ?ks1 = "\<lparr>consumers = [2 \<mapsto> True], closing = False, trace = [EvSessionClose 1], fresh = 3::nat\<rparr>"
  have in1: "1 \<in> dom (consumers ?ks)" and out5: "5 \<notin> dom (consumers ?ks)"
    by simp_all
  have first: "snd (CancelConsumer 1 ?ks) = ?ks1"
    by (auto simp: CancelConsumer_def sc_Close_def)
  note one = CancelConsumer_idempotent [of 1 ?ks]
  note five = CancelConsumer_idempotent [of 5 ?ks]
  have a: "fst (CancelConsumer 1 ?ks) = None"
    using one by blast
  have b: "fst (CancelConsumer 1 ?ks1) = None" "snd (CancelConsumer 1 ?ks1) = ?ks1"
    using one unfolding first by blast+
  have c: "fst (CancelConsumer 5 ?ks) = None" "snd (CancelConsumer 5 ?ks) = ?ks"
    using five out5 by blast+
  show ?thesis
    using in1 out5 a first b c by (simp only: prod_eq_iff fst_conv snd_conv simp_thms)
qed


lemma Close_fields:
  "consumers (Close ord ks) = consumers ks \<and> closing (Close ord ks) \<and>
   fresh (Close ord ks) = fresh ks \<and>
   trace (Close ord ks) =
     trace ks @ [EvSetClosing] @ map EvSessionClose ord @ [EvTransportClose]"
  by (simp add: Close_def consumer_Close_def set_closing_def close_sessions_fields)

lemma Consume_keeps_sessions:
  assumes "Consume tr topic partn offs ks = Some (r, ks')"
  shows "dom (consumers ks) \<subseteq> dom (consumers ks')"
  using assms
  by (auto simp: Consume_def NewStreamConsumer_def Start_def
        split: if_splits option.splits prod.splits sum.splits)


text \<open>
  Claim C10. \<^verbatim>\<open>Close\<close> sets the closing flag and leaves the map of sessions as it is, so
  every session registered before is registered after. \<^verbatim>\<open>Consume\<close> removes no entry
  either; \<^verbatim>\<open>CancelConsumer\<close> is the operation that takes its session out of the map.
\<close>

theorem Close_keeps_registry:
  "consumers (Close ord ks) = consumers ks \<and>
   closing (Close ord ks) \<and>
   fresh (Close ord ks) = fresh ks \<and>
   (\<forall>tr topic partn offs r ks'. Consume tr topic partn offs ks = Some (r, ks') \<longrightarrow>
      dom (consumers ks) \<subseteq> dom (consumers ks')) \<and>
   consumers (snd (CancelConsumer sc ks)) = (consumers ks)(sc := None)"
  using Close_fields [of ord ks] Consume_keeps_sessions [of _ _ _ _ ks]
  by (auto simp: CancelConsumer_def sc_Close_def split: option.splits)


theorem Close_keeps_registry_witness:
  "Close [1, 2] \<lparr>consumers = [1 \<mapsto> True, 2 \<mapsto> True], closing = False, trace = [], fresh = 3\<rparr> =
     \<lparr>consumers = [1 \<mapsto> True, 2 \<mapsto> True], closing = True,
      trace = [EvSetClosing, EvSessionClose 1, EvSessionClose 2, EvTransportClose], fresh = 3\<rparr> \<and>
   Consume (\<lambda>i. (Some 7, None)) ''events'' 0 4
       \<lparr>consumers = [1 \<mapsto> True, 2 \<mapsto> True], closing = False, trace = [], fresh = 3\<rparr> =
     Some ((Some 3, None),
       \<lparr>consumers = [1 \<mapsto> True, 2 \<mapsto> True, 3 \<mapsto> True], closing = False,
        trace = [EvConsumePartition ''events'' 0 4, EvNewStreamConsumer 3 7, EvStart 3],
        fresh = 4\<rparr>) \<and>
   dom [1 \<mapsto> True, 2 \<mapsto> True] \<subseteq> dom [1 \<mapsto> True, 2 \<mapsto> True, (3::nat) \<mapsto> True]"
proof -
  let ?ks = "\<lparr>consumers = [1 \<mapsto> True, 2 \<mapsto> True], closing = False, trace = [], fresh = 3::nat\<rparr>"
  let ?ks' = "\<lparr>consumers = [1 \<mapsto> True, 2 \<mapsto> True, 3 \<mapsto> True], closing = False,
        trace = [EvConsumePartition ''events'' 0 4, EvNewStreamConsumer 3 7, EvStart 3],
        fresh = 4::nat\<rparr>"
  note inst = Close_keeps_registry [of "[1, 2]" ?ks 1]
  have res: "Consume (\<lambda>i. (Some 7, None)) ''events'' 0 4 ?ks = Some ((Some 3, None), ?ks')"
    by (simp add: Consume_def open_loop_None open_loop_Some NewStreamConsumer_def Start_def)
  have sub: "dom (consumers ?ks) \<subseteq> dom (consumers ?ks')"
    using inst res by blast
  have "consumers (Close [1, 2] ?ks) = consumers ?ks" "closing (Close [1, 2] ?ks)"
    "fresh (Close [1, 2] ?ks) = fresh ?ks"
    using inst by blast+
  moreover have "trace (Close [1, 2] ?ks) =
      [EvSetClosing, EvSessionClose 1, EvSessionClose 2, EvTransportClose]"
    by (simp add: Close_fields)
  ultimately have "Close [1, 2] ?ks =
     \<lparr>consumers = [1 \<mapsto> True, 2 \<mapsto> True], closing = True,
      trace = [EvSetClosing, EvSessionClose 1, EvSessionClose 2, EvTransportClose], fresh = 3\<rparr>"
    by (cases "Close [1, 2] ?ks") simp
  then show ?thesis
    using res sub by simp
qed


text \<open>
  Claim C5. For an order \<open>ord\<close> in which the loop of \<^verbatim>\<open>Close\<close> visits the registered
  sessions, the effects of \<^verbatim>\<open>Close\<close> are, in this order: the write of the closing flag;
  the sessions' \<^verbatim>\<open>Close\<close> calls in the order of the loop, one for each registered session
  and none for any other; the \<^verbatim>\<open>Close\<close> of the transport consumer, as the last effect.
  The flag is set when \<^verbatim>\<open>Close\<close> returns.
\<close>

theorem Close_order:
  assumes "range_keys (consumers ks) ord"
  shows "trace (Close ord ks) =
           trace ks @ [EvSetClosing] @ map EvSessionClose ord @ [EvTransportClose] \<and>
         (\<forall>c. count_list (map EvSessionClose ord) (EvSessionClose c) =
              (if c \<in> dom (consumers ks) then 1 else 0)) \<and>
         closing (Close ord ks)"
proof -
  have cnt: "count_list (map EvSessionClose ord) (EvSessionClose c) = count_list ord c" for c
    by (induction ord) simp_all
  have once: "distinct xs \<Longrightarrow> count_list xs c = (if c \<in> set xs then 1 else 0)"
    for xs :: "sid list" and c
    by (induction xs) auto
  have "count_list ord c = (if c \<in> dom (consumers ks) then 1 else 0)" for c
    using assms once [of ord c] by (simp add: range_keys_def)
  then show ?thesis
    by (simp add: cnt Close_fields)
qed

theorem Close_order_witness:
  "range_keys [1 \<mapsto> True, (2::nat) \<mapsto> True] [2, 1] \<and>
   trace (Close [2, 1]
      \<lparr>consumers = [1 \<mapsto> True, 2 \<mapsto> True], closing = False, trace = [EvStart 2], fresh = 3\<rparr>) =
     [EvStart 2, EvSetClosing, EvSessionClose 2, EvSessionClose 1, EvTransportClose] \<and>
   closing (Close [2, 1]
      \<lparr>consumers = [1 \<mapsto> True, 2 \<mapsto> True], closing = False, trace = [EvStart 2], fresh = 3\<rparr>) \<and>
   count_list (map EvSessionClose [2, 1]) (EvSessionClose 1) = 1 \<and>
   count_list (map EvSessionClose [2, 1]) (EvSessionClose 5) = 0"
proof -
  let ?ks = "\<lparr>consumers = [1 \<mapsto> True, 2 \<mapsto> True], closing = False, trace = [EvStart 2], fresh = 3::nat\<rparr>"
  have keys: "range_keys (consumers ?ks) [2, 1]"
    by (auto simp: range_keys_def)
  show ?thesis
    using keys Close_order [OF keys] by simp
qed

section \<open>The registry once closing\<close>








text \<open>
  The address given to a new session is new: in a state reached from a new manager every
  registered session lies below the next free address.
\<close>

lemma step_fresh:
  assumes "step ks c ks'" and "\<forall>s\<in>dom (consumers ks). s < fresh ks"
  shows "\<forall>s\<in>dom (consumers ks'). s < fresh ks'"
  using assms
proof (cases rule: step.cases)
  case (step_Consume tr topic partn offs r)
  then show ?thesis
    using assms(2)
    by (auto simp: Consume_def NewStreamConsumer_def Start_def
          split: if_splits option.splits prod.splits sum.splits)
       (metis domI less_Suc_eq)+
next
  case (step_CancelConsumer sc r)
  then show ?thesis
    using assms(2)
    by (auto simp: CancelConsumer_def sc_Close_def split: option.splits if_splits)
next
  case (step_Close ord)
  then show ?thesis
    using assms(2) by (simp add: Close_fields)
qed

lemma run_fresh:
  "run ks cs ks' \<Longrightarrow> \<forall>s\<in>dom (consumers ks). s < fresh ks \<Longrightarrow>
   \<forall>s\<in>dom (consumers ks'). s < fresh ks'"
  by (induction rule: run.induct) (auto dest: step_fresh)

lemma reachable_fresh:
  "run new_stream cs ks \<Longrightarrow> fresh ks \<notin> dom (consumers ks)"
  using run_fresh [of new_stream cs ks] by (auto simp: new_stream_def)

section \<open>Properties of the connection bootstrap\<close>

lemma connect_loop_unfold:
  "connect_loop nzk servers retry i attempts =
     (case nzk i servers of (client, err) \<Rightarrow>
        (case err of
           Some e \<Rightarrow>
             if retry <s (if 0 <s retry then attempts + 1 else attempts)
             then Some (Panic e, Suc i)
             else connect_loop nzk servers retry (Suc i)
                    (if 0 <s retry then attempts + 1 else attempts)
         | None \<Rightarrow> Some (Connected client, Suc i)))"
  by (subst connect_loop.simps) simp


text \<open>
  With a budget of zero the loop never panics, and it does not return while every attempt
  fails.
\<close>

lemma zero_budget_never_panics:
  assumes "MustGetZookeeperClient nzk servers 0 = Some y"
  shows "\<exists>c. fst y = Connected c"
proof -
  have "retry = 0 \<and> attempts = 0 \<longrightarrow> (\<exists>c. fst y = Connected c)"
    if "connect_loop nzk servers retry i attempts = Some y" for retry i attempts
    by (rule connect_loop.raw_induct
          [where P = "\<lambda>nzk servers retry i attempts y.
             retry = 0 \<and> attempts = 0 \<longrightarrow> (\<exists>c. fst y = Connected c)", OF _ that])
       (auto split: prod.splits option.splits if_splits)
  then show ?thesis
    using assms by (simp add: MustGetZookeeperClient_def)
qed

lemma zero_budget_retries_forever:
  assumes "\<forall>i. snd (nzk i servers) \<noteq> None"
  shows "MustGetZookeeperClient nzk servers 0 = None"
proof (cases "MustGetZookeeperClient nzk servers 0")
  case None
  then show ?thesis .
next
  case (Some y)
  have "retry = 0 \<and> attempts = 0 \<longrightarrow> \<not> (\<forall>i. snd (nzk i servers) \<noteq> None)"
    if "connect_loop nzk servers retry i attempts = Some y" for retry i attempts y
    by (rule connect_loop.raw_induct
          [where P = "\<lambda>nzk servers retry i attempts y.
             retry = 0 \<and> attempts = 0 \<longrightarrow> \<not> (\<forall>i. snd (nzk i servers) \<noteq> None)", OF _ that])
       (auto split: prod.splits option.splits if_splits, (metis snd_conv)+)
  from this [of 0 0 0 y] show ?thesis
    using Some assms by (simp add: MustGetZookeeperClient_def)
qed


text \<open>
  With a budget \<open>n\<close> between \<open>1\<close> and \<open>2 ^ 63 - 2\<close> the loop waits after each of the first
  \<open>n\<close> failures and panics at failure \<open>n + 1\<close>; an attempt that succeeds before ends it
  with the client.
\<close>

lemma sint_of_nat_small: "int k < 2 ^ 63 \<Longrightarrow> sint (of_nat k :: 64 word) = int k"
  by (simp add: signed_of_nat signed_take_bit_int_eq_self)

lemma connect_loop_waits:
  assumes "0 <s retry"
  shows "\<forall>j<k. snd (nzk (i + j) servers) \<noteq> None \<Longrightarrow> int (a + k) \<le> sint retry \<Longrightarrow>
    connect_loop nzk servers retry i (of_nat a) =
    connect_loop nzk servers retry (i + k) (of_nat (a + k))"
proof (induction k arbitrary: i a)
  case 0
  then show ?case by simp
next
  case (Suc k)
  have bound: "sint retry < 2 ^ 63"
    using sint_lt [of retry] by simp
  obtain c e where first: "nzk i servers = (c, Some e)"
    using Suc.prems(1) [rule_format, of 0] by (cases "nzk i servers") auto
  have "sint (of_nat (Suc a) :: 64 word) = int (Suc a)"
    using Suc.prems(2) bound by (intro sint_of_nat_small) linarith
  then have "sint (of_nat a + 1 :: 64 word) = int a + 1"
    by (simp add: add.commute)
  then have stay: "\<not> retry <s of_nat a + 1"
    using Suc.prems(2) unfolding word_sless_alt by linarith
  have rest: "\<forall>j<k. snd (nzk (Suc i + j) servers) \<noteq> None"
    using Suc.prems(1) by (metis Suc_less_eq add_Suc_shift)
  have "connect_loop nzk servers retry i (of_nat a) =
        connect_loop nzk servers retry (Suc i) (of_nat (Suc a))"
    using first stay assms by (subst connect_loop_unfold) (simp add: add.commute)
  also have "\<dots> = connect_loop nzk servers retry (Suc i + k) (of_nat (Suc a + k))"
    using Suc.prems(2) by (intro Suc.IH [OF rest]) simp
  finally show ?case by simp
qed

lemma positive_budget_panics:
  assumes "0 <s retry" and "sint retry < 2 ^ 63 - 1"
    and "\<forall>j<nat (sint retry). snd (nzk j servers) \<noteq> None"
    and "nzk (nat (sint retry)) servers = (c, Some e)"
  shows "MustGetZookeeperClient nzk servers retry = Some (Panic e, nat (sint retry) + 1)"
proof -
  let ?n = "nat (sint retry)"
  have pos: "0 < sint retry"
    using assms(1) by (simp add: word_sless_alt)
  have "connect_loop nzk servers retry 0 (of_nat 0) =
        connect_loop nzk servers retry (0 + ?n) (of_nat (0 + ?n))"
    using assms(3) pos by (intro connect_loop_waits [OF assms(1)]) simp_all
  moreover have "sint (of_nat (Suc ?n) :: 64 word) = int (Suc ?n)"
    using assms(2) pos by (intro sint_of_nat_small) simp
  then have "sint (of_nat ?n + 1 :: 64 word) = sint retry + 1"
    using pos by (simp add: add.commute)
  then have "retry <s of_nat ?n + 1"
    unfolding word_sless_alt by linarith
  then have "connect_loop nzk servers retry ?n (of_nat ?n) = Some (Panic e, Suc ?n)"
    using assms(1,4) by (subst connect_loop_unfold) simp
  ultimately show ?thesis
    by (simp add: MustGetZookeeperClient_def)
qed

lemma positive_budget_connects:
  assumes "0 <s retry" and "int k \<le> sint retry"
    and "\<forall>j<k. snd (nzk j servers) \<noteq> None"
    and "nzk k servers = (c, None)"
  shows "MustGetZookeeperClient nzk servers retry = Some (Connected c, k + 1)"
proof -
  have "connect_loop nzk servers retry 0 (of_nat 0) =
        connect_loop nzk servers retry (0 + k) (of_nat (0 + k))"
    using assms(2,3) by (intro connect_loop_waits [OF assms(1)]) simp_all
  moreover have "connect_loop nzk servers retry k (of_nat k) = Some (Connected c, Suc k)"
    using assms(4) by (subst connect_loop_unfold) simp
  ultimately show ?thesis
    by (simp add: MustGetZookeeperClient_def)
qed

text \<open>
  Claim C6, where the code departs from it. The comment above \<^verbatim>\<open>MustGetZookeeperClient\<close>
  and the claim have every budget \<open>retry \<le> 0\<close> retry forever. For a negative budget the
  counter stays at zero, the test \<^verbatim>\<open>attempts > retry\<close> holds, and the first failed attempt
  panics.
\<close>

theorem MustGetZookeeperClient_negative_budget_panics:
  assumes "retry <s 0" and "nzk 0 servers = (c, Some e)"
  shows "MustGetZookeeperClient nzk servers retry = Some (Panic e, 1)"
proof -
  have "\<not> 0 <s retry"
    using assms(1) by (simp add: word_sless_alt)
  then show ?thesis
    using assms by (simp add: MustGetZookeeperClient_def connect_loop_unfold)
qed


theorem MustGetZookeeperClient_negative_budget_panics_witness:
  "(- 1 :: 64 word) <s 0 \<and>
   MustGetZookeeperClient (\<lambda>i servers. (0::nat, Some (OtherError 1))) [''zk:2181''] (- 1) =
     Some (Panic (OtherError 1), 1)"
proof -
  have neg: "(- 1 :: 64 word) <s 0"
    by simp
  show ?thesis
    using neg MustGetZookeeperClient_negative_budget_panics
      [OF neg, of "\<lambda>i servers. (0::nat, Some (OtherError 1))" "[''zk:2181'']" 0 "OtherError 1"]
    by simp
qed

section \<open>Properties of the coordination client and of broker discovery\<close>

text \<open>
  For any coordination client, broker discovery is all or nothing: an error comes with
  the empty list, and without an error there is one address for each listed entry, made
  of what \<^verbatim>\<open>Get\<close> left under \<^verbatim>\<open>host\<close> and \<^verbatim>\<open>port\<close>.
\<close>

lemma Get_by_value_fails:
  "\<exists>e. Get J zk p ByValue i = (Some e, i)"
  by (auto simp: Get_def Unmarshal_def split: option.splits)

lemma brokers_loop_result:
  "brokers_loop F zk ps acc = (res, err) \<Longrightarrow>
   (case err of
      Some e \<Rightarrow> res = [] \<and> (\<exists>p\<in>set ps. fst (zk_Get zk p ByValue Map.empty) = Some e)
    | None \<Rightarrow>
        res = acc @ map (\<lambda>p. Sprintf F (snd (zk_Get zk p ByValue Map.empty) ''host'')
                                      (snd (zk_Get zk p ByValue Map.empty) ''port'')) ps \<and>
        (\<forall>p\<in>set ps. fst (zk_Get zk p ByValue Map.empty) = None))"
proof (induction ps arbitrary: acc)
  case Nil
  then show ?case by auto
next
  case (Cons p ps)
  show ?case
  proof (cases "zk_Get zk p ByValue Map.empty")
    case (Pair e data)
    show ?thesis
    proof (cases e)
      case None
      with Pair Cons.prems have
        "brokers_loop F zk ps (acc @ [Sprintf F (data ''host'') (data ''port'')]) = (res, err)"
        by simp
      from Cons.IH [OF this] show ?thesis
        using Pair None by (auto split: option.splits)
    next
      case (Some x)
      with Pair Cons.prems show ?thesis by auto
    qed
  qed
qed

lemma findRegisteredBrokers_all_or_nothing:
  assumes "findRegisteredBrokers F zk = (res, err)"
  shows "case err of
      Some e \<Rightarrow> res = []
    | None \<Rightarrow>
        snd (zk_List zk ''/brokers/ids'') = None \<and>
        res = map (\<lambda>p. Sprintf F (snd (zk_Get zk p ByValue Map.empty) ''host'')
                                (snd (zk_Get zk p ByValue Map.empty) ''port''))
                (fst (zk_List zk ''/brokers/ids''))"
proof (cases "zk_List zk ''/brokers/ids''")
  case (Pair ps e)
  show ?thesis
  proof (cases e)
    case None
    with Pair assms have "brokers_loop F zk ps [] = (res, err)"
      by (simp add: findRegisteredBrokers_def)
    from brokers_loop_result [OF this] show ?thesis
      using Pair None by (auto split: option.splits)
  next
    case (Some x)
    with Pair assms show ?thesis
      by (auto simp: findRegisteredBrokers_def)
  qed
qed

lemma brokers_loop_mock:
  "brokers_loop F (mock_client J ord zk) (p # ps) acc =
     ([], Some (case paths zk p of
                  None \<Rightarrow> ErrNotFound
                | Some data \<Rightarrow>
                    (case checkValid J data of Some e \<Rightarrow> e | None \<Rightarrow> InvalidUnmarshalError)))"
  by (simp add: mock_client_def Get_def Unmarshal_def split: option.splits)

lemma findRegisteredBrokers_mock:
  "findRegisteredBrokers F (mock_client J ord zk) =
     (case filter (\<lambda>k. ''/brokers/ids'' = Dir k) ord of
        [] \<Rightarrow> ([], None)
      | p # ps \<Rightarrow>
          ([], Some (case paths zk p of
                  None \<Rightarrow> ErrNotFound
                | Some data \<Rightarrow>
                    (case checkValid J data of Some e \<Rightarrow> e | None \<Rightarrow> InvalidUnmarshalError))))"
proof -
  have "zk_List (mock_client J ord zk) ''/brokers/ids'' =
          (filter (\<lambda>k. ''/brokers/ids'' = Dir k) ord, None)"
    by (simp add: mock_client_def List_def)
  then show ?thesis
    by (simp add: findRegisteredBrokers_def brokers_loop_mock del: brokers_loop.simps(2)
          split: list.splits)
qed

lemma Dir_example:
  "Dir ''/brokers/ids/0'' = ''/brokers/ids''" "Dir ''/brokers/ids/1'' = ''/brokers/ids''"
  by (simp_all add: Dir_def Clean_def clean_element_def)


text \<open>
  Claim C7, where the code departs from it. On the store of the example, whichever of
  the two entries the listing gives first, broker discovery with the in-memory client
  returns the empty list and an error: the entry is handed to \<^verbatim>\<open>Unmarshal\<close> with a map
  that is not passed through a pointer. The claim has it return the two addresses.
\<close>

theorem findRegisteredBrokers_example_store_fails:
  \<open>findRegisteredBrokers F
     (mock_client J [''/brokers/ids/0'', ''/brokers/ids/1'']
        \<lparr>paths = [''/brokers/ids/0'' \<mapsto> ''{"host":"a","port":9092}'',
                  ''/brokers/ids/1'' \<mapsto> ''{"host":"b","port":9093}'']\<rparr>) =
     ([], Some (case checkValid J ''{"host":"a","port":9092}'' of
                  Some e \<Rightarrow> e | None \<Rightarrow> InvalidUnmarshalError)) \<and>
   findRegisteredBrokers F
     (mock_client J [''/brokers/ids/1'', ''/brokers/ids/0'']
        \<lparr>paths = [''/brokers/ids/0'' \<mapsto> ''{"host":"a","port":9092}'',
                  ''/brokers/ids/1'' \<mapsto> ''{"host":"b","port":9093}'']\<rparr>) =
     ([], Some (case checkValid J ''{"host":"b","port":9093}'' of
                  Some e \<Rightarrow> e | None \<Rightarrow> InvalidUnmarshalError))\<close>
  by (simp add: findRegisteredBrokers_mock Dir_example)




end
